theory Spec2Isabelle
  imports Main "HOL-Library.AList" "HOL-Library.Char_ord" "HOL-Library.List_Lexorder"
    "HOL-Library.Sublist"
begin

section \<open>The in-memory key-value store of \<^verbatim>\<open>database/leveldb/mem_db.go\<close>\<close>

text \<open>
  The store is a Go map from string keys to byte slices, an iterator is a cursor over a
  sorted copy of the keys, and a batch is a list of pending operations. Every method
  becomes a function on the state of its receiver. The mutex \<^verbatim>\<open>mtx\<close> is taken at the
  start of a method and released when it returns; the development is sequential, so the
  mutex is left out.
\<close>

subsection \<open>Byte slices and strings\<close>

text \<open>
  A Go \<^verbatim>\<open>[]byte\<close> is either \<^verbatim>\<open>nil\<close> or a sequence of bytes: \<open>None\<close> is \<^verbatim>\<open>nil\<close>, and
  \<open>Some []\<close> is the empty slice that is not \<^verbatim>\<open>nil\<close>. A Go string is a sequence of bytes,
  compared byte by byte: with \<open>Char_ord\<close> and \<open>List_Lexorder\<close> the order \<open>\<le>\<close> on \<open>string\<close>
  is that lexicographic order.
\<close>

type_synonym bytes = "string option"

text \<open>The conversions \<^verbatim>\<open>string(b)\<close> (of \<^verbatim>\<open>nil\<close> it is the empty string) and \<^verbatim>\<open>[]byte(s)\<close>.\<close>

definition to_string :: "bytes \<Rightarrow> string" where
  "to_string b = (case b of None \<Rightarrow> [] | Some s \<Rightarrow> s)"

definition to_bytes :: "string \<Rightarrow> bytes" where
  "to_bytes s = Some s"

text \<open>\<^verbatim>\<open>bytes.Compare(a, b)\<close>: -1, 0 or 1; a \<^verbatim>\<open>nil\<close> argument counts as the empty slice.\<close>

definition bytes_Compare :: "bytes \<Rightarrow> bytes \<Rightarrow> int" where
  "bytes_Compare a b =
     (if to_string a < to_string b then - 1
      else if to_string a = to_string b then 0
      else 1)"

text \<open>\<^verbatim>\<open>strings.HasPrefix(s, prefix)\<close> is
  \<^verbatim>\<open>len(s) >= len(prefix) && s[0:len(prefix)] == prefix\<close>.\<close>

definition HasPrefix :: "string \<Rightarrow> string \<Rightarrow> bool" where
  "HasPrefix s pre = (length pre \<le> length s \<and> take (length pre) s = pre)"

subsection \<open>MemDB\<close>

text \<open>
  \<^verbatim>\<open>type MemDB struct { mtx sync.Mutex; db map[string][]byte }\<close>

  The Go map is a finite table that holds each key once, and \<^verbatim>\<open>for key := range db.db\<close>
  visits its keys in an order the language leaves open. The table is an association
  list: the order of the list is the order in which \<^verbatim>\<open>range\<close> visits the keys, and
  \<open>wf_MemDB\<close> says that no key stands twice. Assignment to a key is \<open>AList.update\<close>,
  \<^verbatim>\<open>delete\<close> is \<open>AList.delete\<close>, and reading a key the map does not hold gives the zero
  value of the element type, the \<^verbatim>\<open>nil\<close> slice. \<open>Get\<close> is written in state-passing form as
  well, returning the store next to the slice that was read.
\<close>

record MemDB =
  db :: "(string \<times> bytes) list"

definition wf_MemDB :: "MemDB \<Rightarrow> bool" where
  "wf_MemDB m = distinct (map fst (db m))"

definition NewMemDB :: MemDB where
  "NewMemDB = \<lparr>db = []\<rparr>"

definition Get :: "MemDB \<Rightarrow> bytes \<Rightarrow> bytes \<times> MemDB" where
  "Get m k = (case map_of (db m) (to_string k) of None \<Rightarrow> None | Some v \<Rightarrow> v, m)"

definition Set :: "MemDB \<Rightarrow> bytes \<Rightarrow> bytes \<Rightarrow> MemDB" where
  "Set m k v = m\<lparr>db := AList.update (to_string k) v (db m)\<rparr>"

definition SetSync :: "MemDB \<Rightarrow> bytes \<Rightarrow> bytes \<Rightarrow> MemDB" where
  "SetSync m k v = m\<lparr>db := AList.update (to_string k) v (db m)\<rparr>"

definition Delete :: "MemDB \<Rightarrow> bytes \<Rightarrow> MemDB" where
  "Delete m k = m\<lparr>db := AList.delete (to_string k) (db m)\<rparr>"

definition DeleteSync :: "MemDB \<Rightarrow> bytes \<Rightarrow> MemDB" where
  "DeleteSync m k = m\<lparr>db := AList.delete (to_string k) (db m)\<rparr>"

subsection \<open>memDBIterator\<close>

text \<open>
  \<^verbatim>\<open>type memDBIterator struct { last int; keys []string; db DB; start []byte }\<close>

  The field \<^verbatim>\<open>db\<close> points to the store the iterator was made from, and \<^verbatim>\<open>Value\<close> reads
  through it the store as it is at the time of the call: \<open>Value\<close> takes that store as an
  argument. The cursor \<^verbatim>\<open>last\<close> is the field \<open>last_ix\<close>; it stays between -1 and the
  number of keys, far from the bounds of Go's \<^verbatim>\<open>int\<close>. Indexing a slice out of its range
  panics.
\<close>

datatype panic = IndexOutOfRange

record memDBIterator =
  last_ix :: int
  keys :: "string list"
  start :: bytes

definition newMemDBIterator :: memDBIterator where
  "newMemDBIterator = \<lparr>last_ix = 0, keys = [], start = None\<rparr>"

definition Next :: "memDBIterator \<Rightarrow> bool \<times> memDBIterator" where
  "Next it =
     (if last_ix it \<ge> int (length (keys it)) - 1 then (False, it)
      else (True, it\<lparr>last_ix := last_ix it + 1\<rparr>))"

definition Key :: "memDBIterator \<Rightarrow> panic + bytes" where
  "Key it =
     (if 0 \<le> last_ix it \<and> last_ix it < int (length (keys it))
      then Inr (to_bytes (keys it ! nat (last_ix it)))
      else Inl IndexOutOfRange)"

definition Value :: "memDBIterator \<Rightarrow> MemDB \<Rightarrow> panic + bytes" where
  "Value it m = (case Key it of Inl e \<Rightarrow> Inl e | Inr k \<Rightarrow> Inr (fst (Get m k)))"

text \<open>The loop of \<^verbatim>\<open>Seek\<close>: \<^verbatim>\<open>for i, key := range it.keys\<close>, from index \<open>i\<close> on.\<close>

fun Seek_range :: "string list \<Rightarrow> nat \<Rightarrow> string \<Rightarrow> nat option" where
  "Seek_range [] i point = None"
| "Seek_range (k # rest) i point =
     (if k \<ge> point then Some i else Seek_range rest (Suc i) point)"

definition Seek :: "memDBIterator \<Rightarrow> bytes \<Rightarrow> bool \<times> memDBIterator" where
  "Seek it point =
     (case Seek_range (keys it) 0 (to_string point) of
        Some i \<Rightarrow> (True, it\<lparr>last_ix := int i\<rparr>)
      | None \<Rightarrow> (False, it))"

definition newMemDBIteratorWithArgs :: "string list \<Rightarrow> bytes \<Rightarrow> memDBIterator" where
  "newMemDBIteratorWithArgs ks st =
     (let itr = \<lparr>last_ix = - 1, keys = ks, start = st\<rparr>
      in if st \<noteq> None then snd (Seek itr st) else itr)"

text \<open>The loop of \<^verbatim>\<open>IteratorPrefix\<close> over the keys of the map, appending to \<^verbatim>\<open>it.keys\<close>.\<close>

fun IteratorPrefix_range :: "string list \<Rightarrow> string \<Rightarrow> string list \<Rightarrow> string list" where
  "IteratorPrefix_range [] pre ks = ks"
| "IteratorPrefix_range (k # rng) pre ks =
     IteratorPrefix_range rng pre (if HasPrefix k pre then ks @ [k] else ks)"

text \<open>\<^verbatim>\<open>sort.Strings\<close> sorts a slice of strings into increasing order; it is \<open>sort\<close>.\<close>

definition IteratorPrefix :: "MemDB \<Rightarrow> bytes \<Rightarrow> memDBIterator" where
  "IteratorPrefix m pre =
     (let it = newMemDBIterator\<lparr>last_ix := - 1\<rparr>;
          it = it\<lparr>keys := IteratorPrefix_range (map fst (db m)) (to_string pre) (keys it)\<rparr>
      in it\<lparr>keys := sort (keys it)\<rparr>)"

definition Iterator :: "MemDB \<Rightarrow> memDBIterator" where
  "Iterator m = IteratorPrefix m (Some [])"

text \<open>The first loop of \<^verbatim>\<open>getSortedKeys\<close>, which skips the keys below \<^verbatim>\<open>start\<close>.\<close>

fun getSortedKeys_range :: "string list \<Rightarrow> bytes \<Rightarrow> string list \<Rightarrow> string list" where
  "getSortedKeys_range [] st ks = ks"
| "getSortedKeys_range (k # rng) st ks =
     getSortedKeys_range rng st (if bytes_Compare (to_bytes k) st < 0 then ks else ks @ [k])"

text \<open>Its second loop swaps \<^verbatim>\<open>keys[i]\<close> and \<^verbatim>\<open>keys[nkeys-i-1]\<close> for \<open>i\<close> below \<^verbatim>\<open>nkeys/2\<close>.\<close>

function reverse_loop :: "nat \<Rightarrow> string list \<Rightarrow> string list" where
  "reverse_loop i ks =
     (if i < length ks div 2
      then reverse_loop (i + 1) ((ks[i := ks ! (length ks - i - 1)])[length ks - i - 1 := ks ! i])
      else ks)"
  by pat_completeness auto
termination
  by (relation "measure (\<lambda>(i, ks). length ks div 2 - i)") auto

definition getSortedKeys :: "MemDB \<Rightarrow> bytes \<Rightarrow> bool \<Rightarrow> string list" where
  "getSortedKeys m st reverse =
     (let ks = sort (getSortedKeys_range (map fst (db m)) st [])
      in if reverse then reverse_loop 0 ks else ks)"

definition IteratorPrefixWithStart :: "MemDB \<Rightarrow> bytes \<Rightarrow> bytes \<Rightarrow> bool \<Rightarrow> memDBIterator" where
  "IteratorPrefixWithStart m Prefix st isReverse =
     newMemDBIteratorWithArgs (getSortedKeys m st isReverse) st"

subsection \<open>Traversing an iterator\<close>

text \<open>
  The caller's loop over an iterator, \<^verbatim>\<open>for it.Next() { it.Key(); it.Value() }\<close>: each round
  calls \<^verbatim>\<open>Next\<close> first and reads the key and the slice stored under it only when \<^verbatim>\<open>Next\<close>
  returned true. \<open>traverse it m\<close> is the list of the pairs read, against the store \<open>m\<close>.
\<close>

function traverse :: "memDBIterator \<Rightarrow> MemDB \<Rightarrow> panic + (bytes \<times> bytes) list" where
  "traverse it m =
     (if fst (Next it)
      then (case Key (snd (Next it)) of
              Inl e \<Rightarrow> Inl e
            | Inr k \<Rightarrow>
                (case Value (snd (Next it)) m of
                   Inl e \<Rightarrow> Inl e
                 | Inr v \<Rightarrow>
                     (case traverse (snd (Next it)) m of
                        Inl e \<Rightarrow> Inl e
                      | Inr rest \<Rightarrow> Inr ((k, v) # rest))))
      else Inr [])"
  by pat_completeness auto
termination
  by (relation "measure (\<lambda>(it, m). nat (int (length (keys it)) - 1 - last_ix it))")
     (auto simp: Next_def split: if_splits)

text \<open>The keys of a traversal, in the order they were read.\<close>

definition traversed_keys :: "memDBIterator \<Rightarrow> MemDB \<Rightarrow> panic + bytes list" where
  "traversed_keys it m = (case traverse it m of Inl e \<Rightarrow> Inl e | Inr kvs \<Rightarrow> Inr (map fst kvs))"

text \<open>The pair a round of the loop reads at the key \<open>k\<close>, against the store \<open>m\<close>.\<close>

definition entry :: "MemDB \<Rightarrow> string \<Rightarrow> bytes \<times> bytes" where
  "entry m k = (to_bytes k, fst (Get m (to_bytes k)))"

subsection \<open>memDBBatch\<close>

text \<open>
  \<^verbatim>\<open>type memDBBatch struct { db *MemDB; ops []operation }\<close> and
  \<^verbatim>\<open>type operation struct { opType; key []byte; value []byte }\<close>, where \<^verbatim>\<open>opType\<close> is an
  \<^verbatim>\<open>int\<close>. The field \<^verbatim>\<open>db\<close> points to the store, which \<open>Batch_Write\<close> takes as an argument;
  the field \<^verbatim>\<open>value\<close> is \<open>val\<close>.
\<close>

definition opTypeSet :: int where
  "opTypeSet = 1"

definition opTypeDelete :: int where
  "opTypeDelete = 2"

record operation =
  opType :: int
  key :: bytes
  val :: bytes

record memDBBatch =
  ops :: "operation list"

definition NewBatch :: memDBBatch where
  "NewBatch = \<lparr>ops = []\<rparr>"

definition Batch_Set :: "memDBBatch \<Rightarrow> bytes \<Rightarrow> bytes \<Rightarrow> memDBBatch" where
  "Batch_Set mBatch k v =
     mBatch\<lparr>ops := ops mBatch @ [\<lparr>opType = opTypeSet, key = k, val = v\<rparr>]\<rparr>"

definition Batch_Delete :: "memDBBatch \<Rightarrow> bytes \<Rightarrow> memDBBatch" where
  "Batch_Delete mBatch k =
     mBatch\<lparr>ops := ops mBatch @ [\<lparr>opType = opTypeDelete, key = k, val = None\<rparr>]\<rparr>"

text \<open>The loop of \<^verbatim>\<open>Write\<close> over the pending operations.\<close>

fun Write_range :: "operation list \<Rightarrow> MemDB \<Rightarrow> MemDB" where
  "Write_range [] m = m"
| "Write_range (x # rest) m =
     Write_range rest
       (if opType x = opTypeSet
        then m\<lparr>db := AList.update (to_string (key x)) (val x) (db m)\<rparr>
        else if opType x = opTypeDelete
        then m\<lparr>db := AList.delete (to_string (key x)) (db m)\<rparr>
        else m)"

definition Batch_Write :: "memDBBatch \<Rightarrow> MemDB \<Rightarrow> MemDB" where
  "Batch_Write mBatch m = Write_range (ops mBatch) m"

subsection \<open>Sequences of calls\<close>

text \<open>
  A caller's sequence of \<^verbatim>\<open>Set\<close> and \<^verbatim>\<open>Delete\<close> calls, run from left to right on the store,
  or appended in that order to a batch.
\<close>

datatype call = CallSet bytes bytes | CallDelete bytes

fun exec :: "MemDB \<Rightarrow> call \<Rightarrow> MemDB" where
  "exec m (CallSet k v) = Set m k v"
| "exec m (CallDelete k) = Delete m k"

definition run :: "call list \<Rightarrow> MemDB \<Rightarrow> MemDB" where
  "run cs m = foldl exec m cs"

fun append_call :: "memDBBatch \<Rightarrow> call \<Rightarrow> memDBBatch" where
  "append_call b (CallSet k v) = Batch_Set b k v"
| "append_call b (CallDelete k) = Batch_Delete b k"

definition build :: "call list \<Rightarrow> memDBBatch \<Rightarrow> memDBBatch" where
  "build cs b = foldl append_call b cs"

text \<open>
  The store of the specification's example: \<^verbatim>\<open>"a"->"1"\<close>, \<^verbatim>\<open>"c"->"3"\<close>, \<^verbatim>\<open>"b"->"2"\<close>, set one
  by one on a new store.
\<close>

definition example_store :: MemDB where
  "example_store =
     Set (Set (Set NewMemDB (to_bytes ''a'') (to_bytes ''1''))
            (to_bytes ''c'') (to_bytes ''3''))
       (to_bytes ''b'') (to_bytes ''2'')"

text \<open>
  The specification's side of last-writer-wins: the map key a call is about, and the last
  call of a sequence that is about a given key.
\<close>

fun touched :: "call \<Rightarrow> string" where
  "touched (CallSet k v) = to_string k"
| "touched (CallDelete k) = to_string k"

text \<open>What the specification has a call leave under its key: the slice of a \<^verbatim>\<open>Set\<close>, and
  nothing, read as \<^verbatim>\<open>nil\<close>, after a \<^verbatim>\<open>Delete\<close>.\<close>

fun written :: "call \<Rightarrow> bytes" where
  "written (CallSet k v) = v"
| "written (CallDelete k) = None"

definition last_call_on :: "call list \<Rightarrow> string \<Rightarrow> call option" where
  "last_call_on cs k =
     (let on_k = filter (\<lambda>c. touched c = k) cs
      in if on_k = [] then None else Some (last on_k))"

section \<open>The loops\<close>

lemma HasPrefix_prefix: "HasPrefix s pre = prefix pre s"
  by (auto simp: HasPrefix_def prefix_def) (metis append_eq_conv_conj)

lemma IteratorPrefix_range_filter:
  "IteratorPrefix_range rng pre ks = ks @ filter (\<lambda>k. HasPrefix k pre) rng"
  by (induction rng arbitrary: ks) simp_all

lemma getSortedKeys_range_filter:
  "getSortedKeys_range rng st ks = ks @ filter (\<lambda>k. to_string st \<le> k) rng"
  by (induction rng arbitrary: ks) (auto simp: bytes_Compare_def to_bytes_def to_string_def)

declare reverse_loop.simps [simp del]

lemma length_reverse_loop: "length (reverse_loop i ks) = length ks"
proof (induction i ks rule: reverse_loop.induct)
  case (1 i ks)
  show ?case
  proof (cases "i < length ks div 2")
    case True
    then show ?thesis using "1.IH" by (subst reverse_loop.simps) simp
  next
    case False
    then show ?thesis by (subst reverse_loop.simps) simp
  qed
qed

lemma nth_reverse_loop:
  "j < length ks \<Longrightarrow>
     reverse_loop i ks ! j =
       (if i \<le> j \<and> j < length ks - i then ks ! (length ks - 1 - j) else ks ! j)"
proof (induction i ks rule: reverse_loop.induct)
  case (1 i ks)
  show ?case
  proof (cases "i < length ks div 2")
    case True
    let ?ks' = "(ks[i := ks ! (length ks - i - 1)])[length ks - i - 1 := ks ! i]"
    have len: "length ?ks' = length ks" by simp
    have "reverse_loop i ks ! j = reverse_loop (i + 1) ?ks' ! j"
      using True by (subst reverse_loop.simps) simp
    also have "\<dots> = (if i + 1 \<le> j \<and> j < length ks - (i + 1)
                       then ?ks' ! (length ks - 1 - j) else ?ks' ! j)"
      using "1.IH" [OF True] "1.prems" len by simp
    also have "\<dots> = (if i \<le> j \<and> j < length ks - i then ks ! (length ks - 1 - j) else ks ! j)"
      using True "1.prems" by (auto simp: nth_list_update)
    finally show ?thesis .
  next
    case False
    then have "reverse_loop i ks = ks" by (subst reverse_loop.simps) simp
    moreover have "i \<le> j \<and> j < length ks - i \<Longrightarrow> length ks - 1 - j = j"
      using False by linarith
    ultimately show ?thesis by auto
  qed
qed

lemma reverse_loop_rev: "reverse_loop 0 ks = rev ks"
  by (rule nth_equalityI) (simp_all add: length_reverse_loop nth_reverse_loop rev_nth)

declare traverse.simps [simp del]

lemma traverse_drop:
  "- 1 \<le> last_ix it \<Longrightarrow>
     traverse it m = Inr (map (entry m) (drop (nat (last_ix it + 1)) (keys it)))"
proof (induction it m rule: traverse.induct)
  case (1 it m)
  show ?case
  proof (cases "fst (Next it)")
    case False
    then have "int (length (keys it)) - 1 \<le> last_ix it"
      by (simp add: Next_def split: if_splits)
    then have "drop (nat (last_ix it + 1)) (keys it) = []"
      by simp
    with False show ?thesis
      by (subst traverse.simps) simp
  next
    case True
    define it' where "it' = snd (Next it)"
    have lt: "last_ix it < int (length (keys it)) - 1"
      using True by (simp add: Next_def split: if_splits)
    have it': "last_ix it' = last_ix it + 1" "keys it' = keys it"
      using lt by (simp_all add: it'_def Next_def)
    have n: "nat (last_ix it + 1) < length (keys it)"
      using lt "1.prems" by linarith
    have key: "Key it' = Inr (to_bytes (keys it ! nat (last_ix it + 1)))"
      using lt "1.prems" by (simp add: Key_def it')
    have val: "Value it' m = Inr (fst (Get m (to_bytes (keys it ! nat (last_ix it + 1)))))"
      by (simp add: Value_def key)
    have "traverse it' m = Inr (map (entry m) (drop (nat (last_ix it' + 1)) (keys it')))"
    proof -
      have "- 1 \<le> last_ix (snd (Next it))"
        using "1.prems" lt by (simp add: Next_def)
      from "1.IH" [OF True key [unfolded it'_def] val [unfolded it'_def] this]
      show ?thesis by (simp add: it'_def)
    qed
    then have rest: "traverse it' m =
        Inr (map (entry m) (drop (Suc (nat (last_ix it + 1))) (keys it)))"
      using "1.prems" by (simp add: it' nat_add_distrib Suc_nat_eq_nat_zadd1)
    have "traverse it m =
        Inr (entry m (keys it ! nat (last_ix it + 1))
             # map (entry m) (drop (Suc (nat (last_ix it + 1))) (keys it)))"
      using True key val rest
      by (subst traverse.simps) (simp add: it'_def [symmetric] entry_def)
    also have "\<dots> = Inr (map (entry m) (drop (nat (last_ix it + 1)) (keys it)))"
      using n by (simp add: Cons_nth_drop_Suc [symmetric])
    finally show ?thesis .
  qed
qed

lemma Seek_range_None:
  "(\<forall>k \<in> set ks. \<not> point \<le> k) \<Longrightarrow> Seek_range ks i point = None"
  by (induction ks arbitrary: i) simp_all

lemma Seek_range_None_iff:
  "Seek_range ks i point = None \<longleftrightarrow> (\<forall>k \<in> set ks. \<not> point \<le> k)"
  by (induction ks arbitrary: i) simp_all

lemma Seek_range_hd:
  "ks \<noteq> [] \<Longrightarrow> point \<le> hd ks \<Longrightarrow> Seek_range ks i point = Some i"
  by (cases ks) simp_all

lemma Write_range_append:
  "Write_range (xs @ ys) m = Write_range ys (Write_range xs m)"
  by (induction xs arbitrary: m) simp_all

lemma ops_build_snoc: "build (cs @ [c]) b = append_call (build cs b) c"
  by (simp add: build_def)

lemma Batch_Write_append_call:
  "Batch_Write (append_call b c) m = exec (Batch_Write b m) c"
  by (cases c)
     (simp_all add: Batch_Write_def Batch_Set_def Batch_Delete_def Write_range_append
        Set_def Delete_def opTypeSet_def opTypeDelete_def)

lemma Batch_Write_build:
  "Batch_Write (build cs b) m = run cs (Batch_Write b m)"
  by (induction cs rule: rev_induct)
     (simp_all add: build_def run_def Batch_Write_append_call)

section \<open>The store keeps each key once\<close>

text \<open>
  A new store holds no key, and \<^verbatim>\<open>Set\<close>, \<^verbatim>\<open>Delete\<close> and \<^verbatim>\<open>Write\<close> keep every key at most once:
  \<open>wf_MemDB\<close> holds of every store a program can reach.
\<close>

lemma wf_NewMemDB: "wf_MemDB NewMemDB"
  by (simp add: wf_MemDB_def NewMemDB_def)

lemma wf_Set: "wf_MemDB m \<Longrightarrow> wf_MemDB (Set m k v)"
  by (simp add: wf_MemDB_def Set_def distinct_update)

lemma wf_Delete: "wf_MemDB m \<Longrightarrow> wf_MemDB (Delete m k)"
  by (simp add: wf_MemDB_def Delete_def distinct_delete)

lemma wf_exec: "wf_MemDB m \<Longrightarrow> wf_MemDB (exec m c)"
  by (cases c) (simp_all add: wf_Set wf_Delete)

lemma wf_run: "wf_MemDB m \<Longrightarrow> wf_MemDB (run cs m)"
  by (induction cs rule: rev_induct) (simp_all add: run_def wf_exec)

lemma wf_Write_range: "wf_MemDB m \<Longrightarrow> wf_MemDB (Write_range xs m)"
  by (induction xs arbitrary: m) (simp_all add: wf_MemDB_def distinct_update distinct_delete)

lemma wf_Batch_Write: "wf_MemDB m \<Longrightarrow> wf_MemDB (Batch_Write b m)"
  by (simp add: Batch_Write_def wf_Write_range)

section \<open>What the constructors of an iterator capture\<close>

lemma IteratorPrefix_last_ix: "last_ix (IteratorPrefix m pre) = - 1"
  by (simp add: IteratorPrefix_def Let_def)

lemma IteratorPrefix_keys:
  "keys (IteratorPrefix m pre) =
     sort (filter (\<lambda>k. prefix (to_string pre) k) (map fst (db m)))"
  by (simp add: IteratorPrefix_def Let_def newMemDBIterator_def IteratorPrefix_range_filter
      HasPrefix_prefix)

lemma getSortedKeys_eq:
  "getSortedKeys m st r =
     (let ks = sort (filter (\<lambda>k. to_string st \<le> k) (map fst (db m)))
      in if r then rev ks else ks)"
  by (simp add: getSortedKeys_def Let_def getSortedKeys_range_filter reverse_loop_rev)

lemma set_getSortedKeys:
  "set (getSortedKeys m st r) = {k \<in> set (map fst (db m)). to_string st \<le> k}"
  by (auto simp: getSortedKeys_eq Let_def)

lemma distinct_getSortedKeys: "wf_MemDB m \<Longrightarrow> distinct (getSortedKeys m st r)"
  by (simp add: getSortedKeys_eq Let_def wf_MemDB_def distinct_map_filter)

lemma IteratorPrefixWithStart_keys:
  "keys (IteratorPrefixWithStart m p st r) = getSortedKeys m st r"
  by (simp add: IteratorPrefixWithStart_def newMemDBIteratorWithArgs_def Let_def Seek_def
      split: option.splits)

lemma IteratorPrefixWithStart_start:
  "start (IteratorPrefixWithStart m p st r) = st"
  by (simp add: IteratorPrefixWithStart_def newMemDBIteratorWithArgs_def Let_def Seek_def
      split: option.splits)

lemma IteratorPrefixWithStart_last_ix:
  "last_ix (IteratorPrefixWithStart m p st r) =
     (if st \<noteq> None \<and> getSortedKeys m st r \<noteq> [] then 0 else - 1)"
proof (cases "st \<noteq> None \<and> getSortedKeys m st r \<noteq> []")
  case True
  then have "hd (getSortedKeys m st r) \<in> set (getSortedKeys m st r)"
    by simp
  then have "to_string st \<le> hd (getSortedKeys m st r)"
    unfolding set_getSortedKeys by simp
  with True have "Seek_range (getSortedKeys m st r) 0 (to_string st) = Some 0"
    by (simp add: Seek_range_hd)
  with True show ?thesis
    by (simp add: IteratorPrefixWithStart_def newMemDBIteratorWithArgs_def Let_def Seek_def)
next
  case False
  then show ?thesis
    by (auto simp: IteratorPrefixWithStart_def newMemDBIteratorWithArgs_def Let_def Seek_def)
qed

lemma traversed_keys_store: "traversed_keys it m' = traversed_keys it m"
proof (induction it m rule: traverse.induct)
  case (1 it m)
  show ?case
  proof (cases "fst (Next it)")
    case False
    then show ?thesis
      by (simp add: traversed_keys_def traverse.simps [of it])
  next
    case True
    show ?thesis
    proof (cases "Key (snd (Next it))")
      case (Inl e)
      with True show ?thesis
        by (simp add: traversed_keys_def traverse.simps [of it])
    next
      case (Inr k)
      then have v: "Value (snd (Next it)) m = Inr (fst (Get m k))"
        and v': "Value (snd (Next it)) m' = Inr (fst (Get m' k))"
        by (simp_all add: Value_def)
      from "1.IH" [OF True Inr v]
      have "traversed_keys (snd (Next it)) m' = traversed_keys (snd (Next it)) m" .
      with True Inr v v' show ?thesis
        by (simp add: traversed_keys_def traverse.simps [of it] split: sum.splits)
    qed
  qed
qed

lemma traversed_keys_drop:
  "- 1 \<le> last_ix it \<Longrightarrow>
     traversed_keys it m = Inr (map to_bytes (drop (nat (last_ix it + 1)) (keys it)))"
  by (simp add: traversed_keys_def traverse_drop entry_def comp_def)

lemma sorted_hd_Min: "sorted xs \<Longrightarrow> xs \<noteq> [] \<Longrightarrow> hd xs = Min (set xs)"
  by (cases xs) (auto intro!: Min_eqI [symmetric])

lemma sorted_last_Max: "sorted xs \<Longrightarrow> xs \<noteq> [] \<Longrightarrow> last xs = Max (set xs)"
proof -
  assume s: "sorted xs" and ne: "xs \<noteq> []"
  have "\<And>y. y \<in> set xs \<Longrightarrow> y \<le> last xs"
    using s ne by (induction xs) (auto split: if_splits)
  then show ?thesis
    using ne by (intro Max_eqI [symmetric]) simp_all
qed

text \<open>
  The order in which \<^verbatim>\<open>range\<close> visits the map does not show in an iterator: two stores
  with the same keys give the same iterators.
\<close>

lemma sort_filter_set:
  assumes "distinct xs" and "distinct ys" and "set xs = set ys"
  shows "sort (filter P xs) = sort (filter P ys)"
proof (rule sorted_distinct_set_unique)
  show "set (sort (filter P xs)) = set (sort (filter P ys))"
    using assms(3) by simp
qed (simp_all add: assms)

lemma range_order_irrelevant:
  assumes "wf_MemDB m" and "wf_MemDB m'" and "set (map fst (db m)) = set (map fst (db m'))"
  shows "IteratorPrefix m pre = IteratorPrefix m' pre"
    and "IteratorPrefixWithStart m p st r = IteratorPrefixWithStart m' p st r"
proof -
  have d: "distinct (map fst (db m))" "distinct (map fst (db m'))"
    using assms(1,2) by (simp_all add: wf_MemDB_def)
  have "keys (IteratorPrefix m pre) = keys (IteratorPrefix m' pre)"
    unfolding IteratorPrefix_keys by (rule sort_filter_set [OF d assms(3)])
  then show "IteratorPrefix m pre = IteratorPrefix m' pre"
    by (simp add: IteratorPrefix_def Let_def)
  have "getSortedKeys m st r = getSortedKeys m' st r"
    unfolding getSortedKeys_eq Let_def using sort_filter_set [OF d assms(3)] by simp
  then show "IteratorPrefixWithStart m p st r = IteratorPrefixWithStart m' p st r"
    by (simp add: IteratorPrefixWithStart_def)
qed

subsection \<open>The example store\<close>

lemma db_example_store:
  "db example_store = [(''a'', Some ''1''), (''c'', Some ''3''), (''b'', Some ''2'')]"
  by (simp add: example_store_def Set_def NewMemDB_def to_bytes_def to_string_def)

lemma wf_example_store: "wf_MemDB example_store"
  by (simp add: wf_MemDB_def db_example_store)

lemma example_forward:
  "IteratorPrefixWithStart example_store None (Some ''b'') False =
     \<lparr>last_ix = 0, keys = [''b'', ''c''], start = Some ''b''\<rparr>"
  by (simp add: IteratorPrefixWithStart_last_ix IteratorPrefixWithStart_keys
      IteratorPrefixWithStart_start getSortedKeys_eq db_example_store to_bytes_def to_string_def)

lemma example_reverse:
  "IteratorPrefixWithStart example_store None (Some ''b'') True =
     \<lparr>last_ix = 0, keys = [''c'', ''b''], start = Some ''b''\<rparr>"
  by (simp add: IteratorPrefixWithStart_last_ix IteratorPrefixWithStart_keys
      IteratorPrefixWithStart_start getSortedKeys_eq db_example_store to_bytes_def to_string_def)

lemma entry_example:
  "entry example_store ''a'' = (Some ''a'', Some ''1'')"
  "entry example_store ''b'' = (Some ''b'', Some ''2'')"
  "entry example_store ''c'' = (Some ''c'', Some ''3'')"
  by (simp_all add: entry_def Get_def db_example_store to_bytes_def to_string_def)

section \<open>Properties of the store\<close>

lemma run_snoc: "run (cs @ [c]) m = exec (run cs m) c"
  by (simp add: run_def)

lemma last_call_on_snoc:
  "last_call_on (cs @ [c]) k = (if touched c = k then Some c else last_call_on cs k)"
  by (simp add: last_call_on_def)

lemma Get_exec:
  "fst (Get (exec m c) k) =
     (if touched c = to_string k
      then written c
      else fst (Get m k))"
  by (cases c) (simp_all add: Get_def Set_def Delete_def update_conv' delete_conv')

lemma Get_run:
  "fst (Get (run cs m) k) =
     (case last_call_on cs (to_string k) of
        None \<Rightarrow> fst (Get m k)
      | Some c \<Rightarrow> written c)"
proof (induction cs rule: rev_induct)
  case Nil
  show ?case by (simp add: run_def last_call_on_def)
next
  case (snoc c cs)
  show ?case
  proof (cases "touched c = to_string k")
    case True
    then show ?thesis
      by (simp add: run_snoc last_call_on_snoc Get_exec)
  next
    case False
    then show ?thesis
      using snoc.IH by (simp add: run_snoc last_call_on_snoc Get_exec)
  qed
qed

lemma Get_absent:
  assumes "to_string k \<notin> set (map fst (db m))"
  shows "Get m k = (None, m)"
proof -
  have "map_of (db m) (to_string k) = None"
    using assms by (simp add: map_of_eq_None_iff)
  then show ?thesis
    by (simp add: Get_def)
qed

text \<open>
  Claim C3. After any sequence of \<^verbatim>\<open>Set\<close> and \<^verbatim>\<open>Delete\<close> calls, \<^verbatim>\<open>Get(k)\<close> is decided by the
  last call of the sequence on \<open>k\<close>: the slice of a \<^verbatim>\<open>Set\<close>, \<^verbatim>\<open>nil\<close> after a \<^verbatim>\<open>Delete\<close>. A key
  that no call of the sequence is about reads as before the sequence; that is \<^verbatim>\<open>nil\<close> when
  the store did not hold the key, as in a store made by \<^verbatim>\<open>NewMemDB\<close>.
\<close>

theorem last_writer_wins:
  "fst (Get (run cs m) k) =
     (case last_call_on cs (to_string k) of
        None \<Rightarrow> fst (Get m k)
      | Some c \<Rightarrow> written c)
   \<and> fst (Get (run cs NewMemDB) k) =
     (case last_call_on cs (to_string k) of
        None \<Rightarrow> None
      | Some c \<Rightarrow> written c)"
proof -
  have "fst (Get NewMemDB k) = None"
    by (simp add: Get_def NewMemDB_def)
  then show ?thesis
    by (simp add: Get_run split: option.splits)
qed

text \<open>
  Claim C9. \<^verbatim>\<open>Get\<close> of a key that the map does not hold returns \<^verbatim>\<open>nil\<close>, a plain slice and
  no error, and leaves the store as it was.
\<close>

theorem Get_absent_is_nil:
  "to_string k \<notin> set (map fst (db m)) \<Longrightarrow> fst (Get m k) = None \<and> snd (Get m k) = m"
  by (simp add: Get_absent)

text \<open>The theorem at a store that holds \<^verbatim>\<open>"a"\<close>, read at \<^verbatim>\<open>"b"\<close>.\<close>

theorem Get_absent_is_nil_witness:
  "to_string (Some ''b'') \<notin> set (map fst (db (Set NewMemDB (Some ''a'') (Some ''1''))))
   \<and> fst (Get (Set NewMemDB (Some ''a'') (Some ''1'')) (Some ''b'')) = None
   \<and> snd (Get (Set NewMemDB (Some ''a'') (Some ''1'')) (Some ''b''))
       = Set NewMemDB (Some ''a'') (Some ''1'')"
proof -
  have h: "to_string (Some ''b'') \<notin> set (map fst (db (Set NewMemDB (Some ''a'') (Some ''1''))))"
    by (simp add: to_string_def Set_def NewMemDB_def)
  show ?thesis
    using h Get_absent_is_nil [OF h] by simp
qed

text \<open>
  Claim C10. A key stored with the \<^verbatim>\<open>nil\<close> slice reads like a key the store does not hold:
  after \<^verbatim>\<open>Set(k, nil)\<close> the map holds \<open>k\<close>, and \<^verbatim>\<open>Get(k)\<close> returns \<^verbatim>\<open>nil\<close>, which is also what
  \<^verbatim>\<open>Get(k)\<close> returns on any store whose map does not hold \<open>k\<close>.
\<close>

theorem Get_nil_collision:
  "to_string k \<notin> set (map fst (db m')) \<Longrightarrow>
     fst (Get (Set m k None) k) = fst (Get m' k)
     \<and> fst (Get (Set m k None) k) = None
     \<and> to_string k \<in> set (map fst (db (Set m k None)))"
  by (simp add: Get_absent) (simp add: Get_def Set_def update_conv' dom_update)

text \<open>The theorem at a new store, for the key \<^verbatim>\<open>"k"\<close>.\<close>

theorem Get_nil_collision_witness:
  "to_string (Some ''k'') \<notin> set (map fst (db NewMemDB))
   \<and> fst (Get (Set NewMemDB (Some ''k'') None) (Some ''k'')) = fst (Get NewMemDB (Some ''k''))
   \<and> fst (Get (Set NewMemDB (Some ''k'') None) (Some ''k'')) = None
   \<and> to_string (Some ''k'') \<in> set (map fst (db (Set NewMemDB (Some ''k'') None)))"
proof -
  have h: "to_string (Some ''k'') \<notin> set (map fst (db NewMemDB))"
    by (simp add: NewMemDB_def)
  show ?thesis
    using h Get_nil_collision [OF h, of NewMemDB] by (simp add: Get_def NewMemDB_def)
qed

text \<open>
  Claim C4. \<^verbatim>\<open>Write\<close> on a batch to which a sequence of \<^verbatim>\<open>Set\<close> and \<^verbatim>\<open>Delete\<close> calls was
  appended leaves the store as the same calls of the store's own \<^verbatim>\<open>Set\<close> and \<^verbatim>\<open>Delete\<close>,
  made in that order, would: a \<^verbatim>\<open>Set\<close> puts the slice under the key, over what was there, and
  a \<^verbatim>\<open>Delete\<close> takes the key out of the map, if it is there. After \<^verbatim>\<open>Set("x","1")\<close>,
  \<^verbatim>\<open>Delete("x")\<close>, \<^verbatim>\<open>Set("x","2")\<close> and \<^verbatim>\<open>Write()\<close>, \<^verbatim>\<open>Get("x")\<close> is \<^verbatim>\<open>"2"\<close>, on every store.
\<close>

theorem Batch_Write_in_order:
  "Batch_Write (build cs b) m = run cs (Batch_Write b m)
   \<and> Batch_Write (build cs NewBatch) m = run cs m
   \<and> map_of (db (Set m k v)) = (map_of (db m))(to_string k \<mapsto> v)
   \<and> map_of (db (Delete m k)) = (map_of (db m))(to_string k := None)
   \<and> fst (Get (Batch_Write
        (Batch_Set (Batch_Delete (Batch_Set NewBatch (to_bytes ''x'') (to_bytes ''1''))
           (to_bytes ''x'')) (to_bytes ''x'') (to_bytes ''2'')) m) (to_bytes ''x''))
      = to_bytes ''2''"
proof -
  have "map_of (db (Set m k v)) = (map_of (db m))(to_string k \<mapsto> v)"
    and "map_of (db (Delete m k)) = (map_of (db m))(to_string k := None)"
    by (simp_all add: Set_def Delete_def update_conv' delete_conv')
  moreover have "Batch_Write NewBatch m = m"
    by (simp add: Batch_Write_def NewBatch_def)
  then have "Batch_Write (build cs NewBatch) m = run cs m"
    by (simp add: Batch_Write_build)
  moreover have "fst (Get (Batch_Write
        (Batch_Set (Batch_Delete (Batch_Set NewBatch (to_bytes ''x'') (to_bytes ''1''))
           (to_bytes ''x'')) (to_bytes ''x'') (to_bytes ''2'')) m) (to_bytes ''x''))
      = to_bytes ''2''"
    by (simp add: Batch_Write_def Batch_Set_def Batch_Delete_def NewBatch_def Get_def
        opTypeSet_def opTypeDelete_def update_conv' delete_conv')
  ultimately show ?thesis
    by (simp add: Batch_Write_build)
qed

section \<open>Properties of iterators\<close>

text \<open>
  Claim C2. On every store, the loop over \<^verbatim>\<open>IteratorPrefix(p)\<close> reads the captured keys from
  the first to the last, each with the slice stored under it; the captured keys are
  strictly increasing, and they are the keys of the store that have \<open>p\<close> as a prefix.
  \<^verbatim>\<open>Iterator()\<close> does the same with all keys of the store.
\<close>

theorem IteratorPrefix_traversal:
  assumes "wf_MemDB m"
  shows "traverse (IteratorPrefix m pre) m = Inr (map (entry m) (keys (IteratorPrefix m pre)))
    \<and> sorted_wrt (<) (keys (IteratorPrefix m pre))
    \<and> set (keys (IteratorPrefix m pre)) = {k \<in> set (map fst (db m)). prefix (to_string pre) k}
    \<and> traverse (Iterator m) m = Inr (map (entry m) (keys (Iterator m)))
    \<and> sorted_wrt (<) (keys (Iterator m))
    \<and> set (keys (Iterator m)) = set (map fst (db m))"
proof -
  have d: "distinct (map fst (db m))"
    using assms by (simp add: wf_MemDB_def)
  have t: "traverse (IteratorPrefix m p) m = Inr (map (entry m) (keys (IteratorPrefix m p)))" for p
    by (simp add: traverse_drop IteratorPrefix_last_ix)
  have s: "sorted_wrt (<) (keys (IteratorPrefix m p))" for p
    using d by (simp add: strict_sorted_iff IteratorPrefix_keys)
  have k: "set (keys (IteratorPrefix m p)) = {k \<in> set (map fst (db m)). prefix (to_string p) k}"
    for p
    by (auto simp: IteratorPrefix_keys)
  have "set (keys (Iterator m)) = set (map fst (db m))"
    by (simp add: Iterator_def k to_string_def)
  then show ?thesis
    using t s k by (simp add: Iterator_def)
qed

text \<open>
  The theorem at a store with the keys \<^verbatim>\<open>"ab"\<close>, \<^verbatim>\<open>"b"\<close>, \<^verbatim>\<open>"aa"\<close> and the prefix \<^verbatim>\<open>"a"\<close>.
\<close>

theorem IteratorPrefix_traversal_witness:
  "wf_MemDB (Set (Set (Set NewMemDB (Some ''ab'') (Some ''1'')) (Some ''b'') (Some ''2''))
              (Some ''aa'') (Some ''3''))
   \<and> traverse (IteratorPrefix (Set (Set (Set NewMemDB (Some ''ab'') (Some ''1''))
         (Some ''b'') (Some ''2'')) (Some ''aa'') (Some ''3'')) (Some ''a''))
       (Set (Set (Set NewMemDB (Some ''ab'') (Some ''1'')) (Some ''b'') (Some ''2''))
              (Some ''aa'') (Some ''3''))
     = Inr [(Some ''aa'', Some ''3''), (Some ''ab'', Some ''1'')]
   \<and> traverse (Iterator (Set (Set (Set NewMemDB (Some ''ab'') (Some ''1''))
         (Some ''b'') (Some ''2'')) (Some ''aa'') (Some ''3'')))
       (Set (Set (Set NewMemDB (Some ''ab'') (Some ''1'')) (Some ''b'') (Some ''2''))
              (Some ''aa'') (Some ''3''))
     = Inr [(Some ''aa'', Some ''3''), (Some ''ab'', Some ''1''), (Some ''b'', Some ''2'')]"
proof -
  let ?m = "Set (Set (Set NewMemDB (Some ''ab'') (Some ''1'')) (Some ''b'') (Some ''2''))
              (Some ''aa'') (Some ''3'')"
  have db: "db ?m = [(''ab'', Some ''1''), (''b'', Some ''2''), (''aa'', Some ''3'')]"
    by (simp add: Set_def NewMemDB_def to_string_def)
  have h: "wf_MemDB ?m"
    by (simp add: wf_MemDB_def db)
  have k1: "keys (IteratorPrefix ?m (Some ''a'')) = [''aa'', ''ab'']"
    by (simp add: IteratorPrefix_keys db to_string_def)
  have k2: "keys (Iterator ?m) = [''aa'', ''ab'', ''b'']"
    by (simp add: Iterator_def IteratorPrefix_keys db to_string_def)
  have e: "map (entry ?m) [''aa'', ''ab'', ''b''] =
      [(Some ''aa'', Some ''3''), (Some ''ab'', Some ''1''), (Some ''b'', Some ''2'')]"
    by (simp add: entry_def Get_def db to_bytes_def to_string_def)
  show ?thesis
    using h IteratorPrefix_traversal [OF h, of "Some ''a''"] k1 k2 e by simp
qed

text \<open>
  Claim C1, as the code has it. On the example store, \<^verbatim>\<open>IteratorPrefixWithStart(nil, "b", false)\<close>
  captures \<^verbatim>\<open>"b"\<close>, \<^verbatim>\<open>"c"\<close> and stands on \<^verbatim>\<open>"b"\<close> already: \<^verbatim>\<open>Key\<close> and \<^verbatim>\<open>Value\<close> read
  \<^verbatim>\<open>("b","2")\<close> before any \<^verbatim>\<open>Next\<close>, and the loop, which calls \<^verbatim>\<open>Next\<close> first, reads
  \<^verbatim>\<open>("c","3")\<close> only. In reverse the iterator stands on \<^verbatim>\<open>"c"\<close> and the loop reads
  \<^verbatim>\<open>("b","2")\<close> only.
\<close>

theorem start_example:
  "traverse (IteratorPrefixWithStart example_store None (to_bytes ''b'') False) example_store
     = Inr [(to_bytes ''c'', to_bytes ''3'')]
   \<and> traverse (IteratorPrefixWithStart example_store None (to_bytes ''b'') True) example_store
     = Inr [(to_bytes ''b'', to_bytes ''2'')]
   \<and> Key (IteratorPrefixWithStart example_store None (to_bytes ''b'') False) = Inr (to_bytes ''b'')
   \<and> Value (IteratorPrefixWithStart example_store None (to_bytes ''b'') False) example_store
     = Inr (to_bytes ''2'')
   \<and> Key (IteratorPrefixWithStart example_store None (to_bytes ''b'') True) = Inr (to_bytes ''c'')
   \<and> Value (IteratorPrefixWithStart example_store None (to_bytes ''b'') True) example_store
     = Inr (to_bytes ''3'')"
  by (simp add: example_forward example_reverse traverse_drop entry_example Key_def Value_def
      Get_def db_example_store to_bytes_def to_string_def)

text \<open>
  Claim C1 as it is stated fails: the loop reads neither \<^verbatim>\<open>("b","2"),("c","3")\<close> forward
  nor \<^verbatim>\<open>("c","3"),("b","2")\<close> in reverse.
\<close>

theorem start_example_counterexample:
  "traverse (IteratorPrefixWithStart example_store None (to_bytes ''b'') False) example_store
     \<noteq> Inr [(to_bytes ''b'', to_bytes ''2''), (to_bytes ''c'', to_bytes ''3'')]
   \<and> traverse (IteratorPrefixWithStart example_store None (to_bytes ''b'') True) example_store
     \<noteq> Inr [(to_bytes ''c'', to_bytes ''3''), (to_bytes ''b'', to_bytes ''2'')]"
  by (simp add: example_forward example_reverse traverse_drop entry_example to_bytes_def)

text \<open>
  Claim C8, as the code has it. With a start that is not \<^verbatim>\<open>nil\<close> and a key of the store at
  or above it, the iterator of \<^verbatim>\<open>IteratorPrefixWithStart\<close> stands at index 0. The first
  \<^verbatim>\<open>Next\<close> moves it to index 1 when two keys or more were captured, and returns false
  and leaves it at 0 when one key was. The loop reads the captured keys but the first,
  against any store, and the first key is not read again later; it is the least key at
  or above the start forward, and the greatest key of the store in reverse.
\<close>

theorem start_positions_cursor:
  assumes "wf_MemDB m" and "st \<noteq> None"
    and "\<exists>k \<in> set (map fst (db m)). to_string st \<le> k"
  shows "last_ix (IteratorPrefixWithStart m p st r) = 0
    \<and> keys (IteratorPrefixWithStart m p st r) \<noteq> []
    \<and> Next (IteratorPrefixWithStart m p st r) =
        (if 2 \<le> length (keys (IteratorPrefixWithStart m p st r))
         then (True, (IteratorPrefixWithStart m p st r)\<lparr>last_ix := 1\<rparr>)
         else (False, IteratorPrefixWithStart m p st r))
    \<and> traverse (IteratorPrefixWithStart m p st r) m'
        = Inr (map (entry m') (tl (keys (IteratorPrefixWithStart m p st r))))
    \<and> hd (keys (IteratorPrefixWithStart m p st r))
        \<notin> set (tl (keys (IteratorPrefixWithStart m p st r)))
    \<and> hd (keys (IteratorPrefixWithStart m p st r)) =
        (if r then Max {k \<in> set (map fst (db m)). to_string st \<le> k}
         else Min {k \<in> set (map fst (db m)). to_string st \<le> k})"
proof -
  let ?it = "IteratorPrefixWithStart m p st r"
  let ?ks = "sort (filter (\<lambda>k. to_string st \<le> k) (map fst (db m)))"
  have set_ks: "set ?ks = {k \<in> set (map fst (db m)). to_string st \<le> k}"
    by auto
  have ne: "?ks \<noteq> []"
    using assms(3) set_ks by (metis (no_types, lifting) empty_iff mem_Collect_eq set_empty)
  have keys: "keys ?it = (if r then rev ?ks else ?ks)"
    by (simp add: IteratorPrefixWithStart_keys getSortedKeys_eq Let_def)
  have ne': "keys ?it \<noteq> []"
    using ne keys by simp
  then have last: "last_ix ?it = 0"
    using assms(2) by (simp add: IteratorPrefixWithStart_last_ix IteratorPrefixWithStart_keys)
  have nxt: "Next ?it = (if 2 \<le> length (keys ?it) then (True, ?it\<lparr>last_ix := 1\<rparr>)
                         else (False, ?it))"
    using ne' by (auto simp: Next_def last)
  have trav: "traverse ?it m' = Inr (map (entry m') (tl (keys ?it)))"
    by (simp add: traverse_drop last drop_Suc)
  have "distinct (keys ?it)"
    using assms(1) by (simp add: IteratorPrefixWithStart_keys distinct_getSortedKeys)
  then have nin: "hd (keys ?it) \<notin> set (tl (keys ?it))"
    using ne' by (cases "keys ?it") simp_all
  have hd: "hd (keys ?it) = (if r then Max {k \<in> set (map fst (db m)). to_string st \<le> k}
                            else Min {k \<in> set (map fst (db m)). to_string st \<le> k})"
    using ne sorted_hd_Min [of ?ks] sorted_last_Max [of ?ks]
    unfolding keys set_ks [symmetric] by (simp add: hd_rev)
  show ?thesis
    using last ne' nxt trav nin hd by simp
qed

text \<open>
  The theorem at the example store, in reverse from \<^verbatim>\<open>"b"\<close>.
\<close>

theorem start_positions_cursor_witness:
  "wf_MemDB example_store \<and> to_bytes ''b'' \<noteq> None
   \<and> (\<exists>k \<in> set (map fst (db example_store)). to_string (to_bytes ''b'') \<le> k)
   \<and> last_ix (IteratorPrefixWithStart example_store None (to_bytes ''b'') True) = 0
   \<and> fst (Next (IteratorPrefixWithStart example_store None (to_bytes ''b'') True))
   \<and> last_ix (snd (Next (IteratorPrefixWithStart example_store None (to_bytes ''b'') True))) = 1
   \<and> traverse (IteratorPrefixWithStart example_store None (to_bytes ''b'') True) example_store
       = Inr [(to_bytes ''b'', to_bytes ''2'')]
   \<and> hd (keys (IteratorPrefixWithStart example_store None (to_bytes ''b'') True)) = ''c''"
proof -
  have h2: "to_bytes ''b'' \<noteq> None"
    by (simp add: to_bytes_def)
  have h3: "\<exists>k \<in> set (map fst (db example_store)). to_string (to_bytes ''b'') \<le> k"
    by (simp add: db_example_store to_bytes_def to_string_def)
  have k: "keys (IteratorPrefixWithStart example_store None (to_bytes ''b'') True) = [''c'', ''b'']"
    by (simp add: to_bytes_def example_reverse)
  from start_positions_cursor [OF wf_example_store h2 h3, of None True example_store]
  show ?thesis
    using wf_example_store h2 h3 by (simp add: k entry_example) (simp add: to_bytes_def)
qed

text \<open>
  Claim C8 as it is stated fails on a store with the one key \<^verbatim>\<open>"a"\<close> and the start
  \<^verbatim>\<open>"a"\<close>: the first \<^verbatim>\<open>Next\<close> returns false and the cursor stays at index 0.
\<close>

theorem start_positions_cursor_counterexample:
  "wf_MemDB (Set NewMemDB (to_bytes ''a'') (to_bytes ''1'')) \<and> to_bytes ''a'' \<noteq> None
   \<and> (\<exists>k \<in> set (map fst (db (Set NewMemDB (to_bytes ''a'') (to_bytes ''1'')))).
        to_string (to_bytes ''a'') \<le> k)
   \<and> \<not> fst (Next (IteratorPrefixWithStart (Set NewMemDB (to_bytes ''a'') (to_bytes ''1''))
               None (to_bytes ''a'') False))
   \<and> last_ix (snd (Next (IteratorPrefixWithStart (Set NewMemDB (to_bytes ''a'') (to_bytes ''1''))
               None (to_bytes ''a'') False))) \<noteq> 1"
proof -
  have db: "db (Set NewMemDB (Some ''a'') (Some ''1'')) = [(''a'', Some ''1'')]"
    by (simp add: Set_def NewMemDB_def to_string_def)
  have "IteratorPrefixWithStart (Set NewMemDB (Some ''a'') (Some ''1'')) None (Some ''a'') False
        = \<lparr>last_ix = 0, keys = [''a''], start = Some ''a''\<rparr>"
    by (simp add: IteratorPrefixWithStart_last_ix IteratorPrefixWithStart_keys
        IteratorPrefixWithStart_start getSortedKeys_eq db to_string_def)
  then show ?thesis
    by (simp add: to_bytes_def Next_def wf_MemDB_def db to_string_def)
qed

text \<open>
  Claim C7. \<^verbatim>\<open>IteratorPrefixWithStart\<close> does not read its prefix: two calls that differ in
  the prefix only return the same iterator, whose keys are the keys of the store at or
  above the start.
\<close>

theorem IteratorPrefixWithStart_ignores_prefix:
  "IteratorPrefixWithStart m p1 st r = IteratorPrefixWithStart m p2 st r
   \<and> set (keys (IteratorPrefixWithStart m p1 st r))
       = {k \<in> set (map fst (db m)). to_string st \<le> k}"
  by (simp add: IteratorPrefixWithStart_keys set_getSortedKeys)
     (simp add: IteratorPrefixWithStart_def)

text \<open>
  Claim C6. A \<^verbatim>\<open>Seek\<close> to a target above every captured key returns false and the iterator
  as it was, so that \<^verbatim>\<open>Next\<close> after it does what \<^verbatim>\<open>Next\<close> would have done without it.
\<close>

theorem Seek_failure_keeps_cursor:
  assumes "\<forall>k \<in> set (keys it). \<not> to_string target \<le> k"
  shows "Seek it target = (False, it) \<and> Next (snd (Seek it target)) = Next it"
  using assms by (simp add: Seek_def Seek_range_None)

text \<open>
  The theorem at an iterator on \<^verbatim>\<open>"a"\<close>, \<^verbatim>\<open>"b"\<close>, \<^verbatim>\<open>"c"\<close> that stands at index 0, with the
  target \<^verbatim>\<open>"d"\<close>.
\<close>

theorem Seek_failure_keeps_cursor_witness:
  "''c'' < to_string (Some ''d'')
   \<and> Seek \<lparr>last_ix = 0, keys = [''a'', ''b'', ''c''], start = None\<rparr> (Some ''d'')
       = (False, \<lparr>last_ix = 0, keys = [''a'', ''b'', ''c''], start = None\<rparr>)
   \<and> Next (snd (Seek \<lparr>last_ix = 0, keys = [''a'', ''b'', ''c''], start = None\<rparr> (Some ''d'')))
       = (True, \<lparr>last_ix = 1, keys = [''a'', ''b'', ''c''], start = None\<rparr>)"
proof -
  have h: "\<forall>k \<in> set (keys \<lparr>last_ix = 0, keys = [''a'', ''b'', ''c''], start = None\<rparr>).
             \<not> to_string (Some ''d'') \<le> k"
    by (simp add: to_string_def)
  from Seek_failure_keeps_cursor [OF h]
  have s: "Seek \<lparr>last_ix = 0, keys = [''a'', ''b'', ''c''], start = None\<rparr> (Some ''d'')
       = (False, \<lparr>last_ix = 0, keys = [''a'', ''b'', ''c''], start = None\<rparr>)"
    by simp
  show ?thesis
    by (simp add: s Next_def to_string_def)
qed

text \<open>
  Claim C5. \<^verbatim>\<open>Set\<close> and \<^verbatim>\<open>Write\<close> return a store and leave an iterator as it is, and the
  keys a loop reads from an iterator do not depend on the store it reads the slices from:
  they are the same after a \<^verbatim>\<open>Set\<close> or a \<^verbatim>\<open>Write\<close> as before. For an iterator made by
  \<^verbatim>\<open>IteratorPrefix\<close> or \<^verbatim>\<open>IteratorPrefixWithStart\<close> they are captured keys, and a key that
  the store did not hold when the iterator was made is none of them.
\<close>

theorem snapshot_stability:
  assumes "to_string k \<notin> set (map fst (db m))"
  shows "traversed_keys it (Set m k v) = traversed_keys it m
    \<and> traversed_keys it (Batch_Write b m) = traversed_keys it m
    \<and> traversed_keys (IteratorPrefix m pre) (Set m k v)
        = Inr (map to_bytes (keys (IteratorPrefix m pre)))
    \<and> to_string k \<notin> set (keys (IteratorPrefix m pre))
    \<and> traversed_keys (IteratorPrefixWithStart m pre st r) (Set m k v)
        = Inr (map to_bytes (drop (nat (last_ix (IteratorPrefixWithStart m pre st r) + 1))
                 (keys (IteratorPrefixWithStart m pre st r))))
    \<and> to_string k \<notin> set (keys (IteratorPrefixWithStart m pre st r))"
proof -
  have "to_string k \<notin> set (keys (IteratorPrefix m pre))"
    using assms by (auto simp: IteratorPrefix_keys)
  moreover have "to_string k \<notin> set (keys (IteratorPrefixWithStart m pre st r))"
    using assms by (auto simp: IteratorPrefixWithStart_keys set_getSortedKeys)
  moreover have "- 1 \<le> last_ix (IteratorPrefixWithStart m pre st r)"
    by (simp add: IteratorPrefixWithStart_last_ix)
  ultimately show ?thesis
    using traversed_keys_store [of it "Set m k v" m] traversed_keys_store [of it "Batch_Write b m" m]
    by (simp add: traversed_keys_drop IteratorPrefix_last_ix)
qed

text \<open>
  The theorem at a store with \<^verbatim>\<open>"a"\<close> and \<^verbatim>\<open>"c"\<close>, to which \<^verbatim>\<open>"b"\<close> is added after \<^verbatim>\<open>Iterator()\<close>:
  the loop reads \<^verbatim>\<open>"a"\<close>, \<^verbatim>\<open>"c"\<close>, and an iterator made after the \<^verbatim>\<open>Set\<close> reads \<^verbatim>\<open>"b"\<close> too.
\<close>

theorem snapshot_stability_witness:
  "to_string (Some ''b'') \<notin> set (map fst (db (Set (Set NewMemDB (Some ''a'') (Some ''1''))
                                                (Some ''c'') (Some ''3''))))
   \<and> traversed_keys (Iterator (Set (Set NewMemDB (Some ''a'') (Some ''1'')) (Some ''c'') (Some ''3'')))
       (Set (Set (Set NewMemDB (Some ''a'') (Some ''1'')) (Some ''c'') (Some ''3''))
          (Some ''b'') (Some ''2''))
     = Inr [Some ''a'', Some ''c'']
   \<and> traversed_keys
       (Iterator (Set (Set (Set NewMemDB (Some ''a'') (Some ''1'')) (Some ''c'') (Some ''3''))
          (Some ''b'') (Some ''2'')))
       (Set (Set (Set NewMemDB (Some ''a'') (Some ''1'')) (Some ''c'') (Some ''3''))
          (Some ''b'') (Some ''2''))
     = Inr [Some ''a'', Some ''b'', Some ''c'']"
proof -
  let ?m = "Set (Set NewMemDB (Some ''a'') (Some ''1'')) (Some ''c'') (Some ''3'')"
  have db: "db ?m = [(''a'', Some ''1''), (''c'', Some ''3'')]"
    by (simp add: Set_def NewMemDB_def to_string_def)
  have db': "db (Set ?m (Some ''b'') (Some ''2''))
      = [(''a'', Some ''1''), (''c'', Some ''3''), (''b'', Some ''2'')]"
    by (simp add: Set_def NewMemDB_def to_string_def)
  have h: "to_string (Some ''b'') \<notin> set (map fst (db ?m))"
    by (simp add: db to_string_def)
  have k: "keys (IteratorPrefix ?m (Some [])) = [''a'', ''c'']"
    by (simp add: IteratorPrefix_keys db to_string_def)
  have k': "keys (IteratorPrefix (Set ?m (Some ''b'') (Some ''2'')) (Some []))
      = [''a'', ''b'', ''c'']"
    by (simp add: IteratorPrefix_keys db' to_string_def)
  from snapshot_stability [OF h, where v = "Some ''2''" and pre = "Some []",
      THEN conjunct2, THEN conjunct2, THEN conjunct1]
  have "traversed_keys (IteratorPrefix ?m (Some [])) (Set ?m (Some ''b'') (Some ''2''))
      = Inr (map to_bytes (keys (IteratorPrefix ?m (Some []))))"
    by simp
  then show ?thesis
    using h by (simp add: Iterator_def k k' to_bytes_def traversed_keys_drop IteratorPrefix_last_ix)
qed

end
